theory Spec2Isabelle
  imports Complex_Main
begin

section \<open>Numbers and absent values\<close>




section \<open>Double-precision numbers\<close>





text \<open>Rounding to the nearest integer, a tie to the even one.\<close>

definition roundEven :: "rat \<Rightarrow> int" where
  "roundEven y =
     (let f = \<lfloor>y\<rfloor>; r = y - of_int f
      in if r < 1 / 2 then f else if 1 / 2 < r then f + 1 else if even f then f else f + 1)"













subsection \<open>Facts about rounding\<close>








lemma roundEven_eqI:
  assumes "\<bar>y - of_int m\<bar> < 1 / 2"
  shows "roundEven y = m"
proof (cases "of_int m \<le> y")
  case True
  have "y < of_int m + 1" using assms by linarith
  with True have "\<lfloor>y\<rfloor> = m" by (rule floor_unique)
  moreover have "y - of_int m < 1 / 2" using assms by linarith
  ultimately show ?thesis by (simp add: roundEven_def Let_def)
next
  case False
  have m1: "(of_int (m - 1) :: rat) = of_int m - 1" by simp
  have a: "of_int (m - 1) \<le> y" unfolding m1 using assms by linarith
  have b: "y < of_int (m - 1) + 1" unfolding m1 using False by linarith
  have f: "\<lfloor>y\<rfloor> = m - 1" using a b by (rule floor_unique)
  have "1 / 2 < y - of_int (m - 1)" unfolding m1 using assms by linarith
  hence "\<not> y - of_int (m - 1) < 1 / 2" by linarith
  thus ?thesis using f \<open>1 / 2 < y - of_int (m - 1)\<close> by (simp add: roundEven_def Let_def)
qed

lemma roundEven_of_int: "roundEven (of_int m) = m"
  by (rule roundEven_eqI) simp









section \<open>Calendar dates\<close>

text \<open>
  The source writes dates as ISO strings \<open>YYYY-MM-DD\<close> and computes with the
  \<open>DateTime\<close> values of the Luxon library, which is not part of the repository.  Both are
  modelled by the calendar fields of the date.  A well-formed string whose fields are not a
  day of the proleptic Gregorian calendar (such as \<open>2024-02-31\<close>) parses to an invalid
  \<open>DateTime\<close>: Luxon's \<open>isValid\<close> is false for it, its \<open>valueOf\<close> is \<open>NaN\<close>, so every
  comparison with it is false, and \<open>plus\<close>, \<open>set\<close> and \<open>startOf\<close> return it unchanged.
\<close>

record date =
  year :: int
  month :: int
  day :: int

definition mkDate :: "int \<Rightarrow> int \<Rightarrow> int \<Rightarrow> date" where
  "mkDate y m d = \<lparr> year = y, month = m, day = d \<rparr>"

definition isLeapYear :: "int \<Rightarrow> bool" where
  "isLeapYear y = (y mod 4 = 0 \<and> (y mod 100 \<noteq> 0 \<or> y mod 400 = 0))"

definition daysInMonth :: "int \<Rightarrow> int \<Rightarrow> int" where
  "daysInMonth y m =
     (if m = 2 then (if isLeapYear y then 29 else 28)
      else if m = 4 \<or> m = 6 \<or> m = 9 \<or> m = 11 then 30 else 31)"

definition isValid :: "date \<Rightarrow> bool" where
  "isValid d = (1 \<le> month d \<and> month d \<le> 12 \<and>
                1 \<le> day d \<and> day d \<le> daysInMonth (year d) (month d))"

text \<open>
  The day number of a date (day 1 is 0001-01-01, a Monday).  It stands for \<open>valueOf\<close>:
  the source only compares and subtracts time stamps of local midnights.
\<close>

definition daysBeforeYear :: "int \<Rightarrow> int" where
  "daysBeforeYear y = 365 * (y - 1) + (y - 1) div 4 - (y - 1) div 100 + (y - 1) div 400"

definition daysBeforeMonth :: "int \<Rightarrow> int \<Rightarrow> int" where
  "daysBeforeMonth y m =
     (if m = 1 then 0 else if m = 2 then 31
      else (if isLeapYear y then 1 else 0) +
        (if m = 3 then 59 else if m = 4 then 90 else if m = 5 then 120 else if m = 6 then 151
         else if m = 7 then 181 else if m = 8 then 212 else if m = 9 then 243
         else if m = 10 then 273 else if m = 11 then 304 else 334))"

definition toDays :: "date \<Rightarrow> int" where
  "toDays d = daysBeforeYear (year d) + daysBeforeMonth (year d) (month d) + day d"

text \<open>Comparison of two \<open>DateTime\<close> values (\<open>a < b\<close>, \<open>a <= b\<close>): false when one is invalid.\<close>

definition dt_lt :: "date \<Rightarrow> date \<Rightarrow> bool" where
  "dt_lt a b = (isValid a \<and> isValid b \<and> toDays a < toDays b)"

definition dt_le :: "date \<Rightarrow> date \<Rightarrow> bool" where
  "dt_le a b = (isValid a \<and> isValid b \<and> toDays a \<le> toDays b)"

text \<open>
  Comparison of two ISO strings (\<open><\<close> on strings, \<open>localeCompare\<close>): for zero-padded
  \<open>YYYY-MM-DD\<close> strings it is the lexicographic order of the fields.
\<close>

definition str_lt :: "date \<Rightarrow> date \<Rightarrow> bool" where
  "str_lt a b = (year a < year b \<or> (year a = year b \<and>
                  (month a < month b \<or> (month a = month b \<and> day a < day b))))"

definition str_le :: "date \<Rightarrow> date \<Rightarrow> bool" where
  "str_le a b = (a = b \<or> str_lt a b)"

definition localeCompare :: "date \<Rightarrow> date \<Rightarrow> int" where
  "localeCompare a b = (if str_lt a b then - 1 else if a = b then 0 else 1)"

text \<open>
  \<open>dt.plus({days: n})\<close> moves along the calendar one month at a time: forwards to the first
  day of the next month, backwards to the last day of the previous one.
\<close>

definition firstOfNextMonth :: "date \<Rightarrow> date" where
  "firstOfNextMonth d =
     (if month d < 12 then d\<lparr>month := month d + 1, day := 1\<rparr>
      else d\<lparr>year := year d + 1, month := 1, day := 1\<rparr>)"

definition lastOfPrevMonth :: "date \<Rightarrow> date" where
  "lastOfPrevMonth d =
     (if 1 < month d
        then d\<lparr>month := month d - 1, day := daysInMonth (year d) (month d - 1)\<rparr>
      else d\<lparr>year := year d - 1, month := 12, day := 31\<rparr>)"

function addDays :: "date \<Rightarrow> int \<Rightarrow> date" where
  "addDays d n =
     (if n < 0 \<or> \<not> isValid d then d
      else if day d + n \<le> daysInMonth (year d) (month d) then d\<lparr>day := day d + n\<rparr>
      else addDays (firstOfNextMonth d) (n - (daysInMonth (year d) (month d) - day d + 1)))"
  by pat_completeness auto
termination
  by (relation "measure (\<lambda>(d, n). nat n)") (auto simp: isValid_def)

function subDays :: "date \<Rightarrow> int \<Rightarrow> date" where
  "subDays d n =
     (if n < 0 \<or> \<not> isValid d then d
      else if n < day d then d\<lparr>day := day d - n\<rparr>
      else subDays (lastOfPrevMonth d) (n - day d))"
  by pat_completeness auto
termination
  by (relation "measure (\<lambda>(d, n). nat n)") (auto simp: isValid_def)

declare addDays.simps [simp del] subDays.simps [simp del]

definition plusDays :: "date \<Rightarrow> int \<Rightarrow> date" where
  "plusDays d n = (if 0 \<le> n then addDays d n else subDays d (- n))"

definition plusWeeks :: "date \<Rightarrow> int \<Rightarrow> date" where
  "plusWeeks d n = plusDays d (7 * n)"

definition plusMonths :: "date \<Rightarrow> int \<Rightarrow> date" where
  "plusMonths d n =
     (if \<not> isValid d then d
      else let m0 = month d - 1 + n;
               y' = year d + m0 div 12;
               m' = m0 mod 12 + 1
           in \<lparr> year = y', month = m', day = min (day d) (daysInMonth y' m') \<rparr>)"

text \<open>\<open>dt.startOf('month')\<close>.\<close>

definition startOfMonth :: "date \<Rightarrow> date" where
  "startOfMonth d = (if isValid d then d\<lparr>day := 1\<rparr> else d)"

text \<open>
  \<open>dt.set({day: k})\<close>: Luxon rebuilds the time stamp from the fields, so a day outside the
  month rolls over into a neighbouring month, as \<open>Date.UTC\<close> does.
\<close>

definition setDay :: "date \<Rightarrow> int \<Rightarrow> date" where
  "setDay d k = (if isValid d then plusDays (d\<lparr>day := 1\<rparr>) (k - 1) else d)"

text \<open>\<open>dt.weekday\<close>: 1 is Monday, 7 is Sunday; absent (\<open>NaN\<close>) for an invalid date.\<close>

definition weekday :: "date \<Rightarrow> int option" where
  "weekday d = (if isValid d then Some ((toDays d - 1) mod 7 + 1) else None)"

text \<open>\<open>a.diff(b, 'days').days\<close>; absent (\<open>NaN\<close>) when one of the dates is invalid.\<close>

definition diffDays :: "date \<Rightarrow> date \<Rightarrow> int option" where
  "diffDays a b = (if isValid a \<and> isValid b then Some (toDays a - toDays b) else None)"

subsection \<open>Facts about the calendar\<close>

lemma div_step:
  assumes "0 < (k::int)"
  shows "y div k = (y - 1) div k + (if y mod k = 0 then 1 else 0)"
proof (cases "y mod k = 0")
  case True
  have "k * (y div k) + y mod k = y" by (rule mult_div_mod_eq)
  with True have "y - 1 = k * (y div k - 1) + (k - 1)"
    by (simp add: algebra_simps)
  hence "(y - 1) div k = y div k - 1"
    using assms by (intro int_div_pos_eq[where r = "k - 1"]) auto
  with True show ?thesis by simp
next
  case False
  have "0 \<le> y mod k" using assms by (rule pos_mod_sign)
  with False have r1: "0 < y mod k" by linarith
  have r2: "y mod k < k" using assms by (rule pos_mod_bound)
  have "k * (y div k) + y mod k = y" by (rule mult_div_mod_eq)
  hence "y - 1 = k * (y div k) + (y mod k - 1)"
    by (simp add: algebra_simps)
  hence "(y - 1) div k = y div k"
    using r1 r2 by (intro int_div_pos_eq[where r = "y mod k - 1"]) auto
  with False show ?thesis by simp
qed

lemma leap_count:
  "(if (y::int) mod 4 = 0 then 1 else 0) - (if y mod 100 = 0 then 1 else 0)
     + (if y mod 400 = 0 then 1 else 0) = (if isLeapYear y then 1 else (0::int))"
proof -
  have "(100::int) dvd 400" by simp
  hence a: "400 dvd y \<Longrightarrow> 100 dvd y" by (rule dvd_trans)
  have "(4::int) dvd 100" by simp
  hence b: "100 dvd y \<Longrightarrow> 4 dvd y" by (rule dvd_trans)
  show ?thesis
  proof (cases "100 dvd y")
    case True
    with b have "4 dvd y" by simp
    with True show ?thesis by (simp add: isLeapYear_def mod_eq_0_iff_dvd)
  next
    case False
    with a have "\<not> 400 dvd y" by blast
    with False show ?thesis by (simp add: isLeapYear_def mod_eq_0_iff_dvd)
  qed
qed

lemma year_step_aux:
  "(p::int) = p' + a \<Longrightarrow> q = q' + b \<Longrightarrow> r = r' + c \<Longrightarrow>
   365 * y + p - q + r = 365 * (y - 1) + p' - q' + r' + (365 + (a - b + c))"
  by simp

lemma daysBeforeYear_Suc:
  "daysBeforeYear (y + 1) = daysBeforeYear y + (if isLeapYear y then 366 else 365)"
proof -
  have e: "daysBeforeYear (y + 1) = 365 * y + y div 4 - y div 100 + y div 400"
    by (simp add: daysBeforeYear_def)
  have d: "daysBeforeYear y = 365 * (y - 1) + (y - 1) div 4 - (y - 1) div 100 + (y - 1) div 400"
    by (simp only: daysBeforeYear_def)
  have "365 * y + y div 4 - y div 100 + y div 400 =
        365 * (y - 1) + (y - 1) div 4 - (y - 1) div 100 + (y - 1) div 400 +
        (365 + ((if y mod 4 = 0 then 1 else 0) - (if y mod 100 = 0 then 1 else 0)
          + (if y mod 400 = 0 then 1 else 0)))"
    by (rule year_step_aux) (rule div_step, simp)+
  hence "daysBeforeYear (y + 1) = daysBeforeYear y + (365 + (if isLeapYear y then 1 else 0))"
    unfolding e d leap_count .
  thus ?thesis by (cases "isLeapYear y") simp_all
qed


lemma month_cases:
  "1 \<le> (m::int) \<Longrightarrow> m \<le> 12 \<Longrightarrow>
   m = 1 \<or> m = 2 \<or> m = 3 \<or> m = 4 \<or> m = 5 \<or> m = 6 \<or> m = 7 \<or> m = 8 \<or> m = 9 \<or> m = 10 \<or> m = 11 \<or> m = 12"
  by arith

lemma daysBeforeMonth_Suc:
  "1 \<le> m \<Longrightarrow> m < 12 \<Longrightarrow> daysBeforeMonth y (m + 1) = daysBeforeMonth y m + daysInMonth y m"
  using month_cases[of m] by (auto simp: daysBeforeMonth_def daysInMonth_def)

lemma daysBeforeMonth_12: "daysBeforeMonth y 12 + 31 = (if isLeapYear y then 366 else 365)"
  by (simp add: daysBeforeMonth_def)


lemma daysInMonth_bounds: "28 \<le> daysInMonth y m" "daysInMonth y m \<le> 31"
  by (simp_all add: daysInMonth_def)

lemma daysInMonth_pos: "1 \<le> daysInMonth y m"
  by (simp add: daysInMonth_def)

lemma daysInMonth_12: "daysInMonth y 12 = 31"
  by (simp add: daysInMonth_def)

lemma isValid_firstOfNextMonth: "isValid d \<Longrightarrow> isValid (firstOfNextMonth d)"
  by (simp add: isValid_def firstOfNextMonth_def daysInMonth_pos)

lemma toDays_firstOfNextMonth:
  assumes "1 \<le> month d" and "month d \<le> 12"
  shows "toDays (firstOfNextMonth d)
           = toDays d - day d + daysInMonth (year d) (month d) + 1"
proof (cases "month d < 12")
  case True
  then show ?thesis
    using daysBeforeMonth_Suc[of "month d" "year d"] assms
    by (simp add: firstOfNextMonth_def toDays_def)
next
  case False
  with assms have "month d = 12" by simp
  then show ?thesis
    using daysBeforeYear_Suc[of "year d"] daysBeforeMonth_12[of "year d"]
    by (simp add: firstOfNextMonth_def toDays_def daysBeforeMonth_def daysInMonth_12)
qed

lemma isValid_lastOfPrevMonth: "isValid d \<Longrightarrow> isValid (lastOfPrevMonth d)"
  by (simp add: isValid_def lastOfPrevMonth_def daysInMonth_pos daysInMonth_12)

lemma toDays_lastOfPrevMonth:
  assumes "1 \<le> month d" and "month d \<le> 12"
  shows "toDays (lastOfPrevMonth d) = toDays d - day d"
proof (cases "1 < month d")
  case True
  then show ?thesis
    using daysBeforeMonth_Suc[of "month d - 1" "year d"] assms
    by (simp add: lastOfPrevMonth_def toDays_def)
next
  case False
  with assms have "month d = 1" by simp
  then show ?thesis
    using daysBeforeYear_Suc[of "year d - 1"] daysBeforeMonth_12[of "year d - 1"]
    by (simp add: lastOfPrevMonth_def toDays_def daysBeforeMonth_def)
qed

lemma addDays_correct:
  "isValid d \<Longrightarrow> 0 \<le> n \<Longrightarrow>
     isValid (addDays d n) \<and> toDays (addDays d n) = toDays d + n"
proof (induction d n rule: addDays.induct)
  case (1 d n)
  show ?case
  proof (cases "day d + n \<le> daysInMonth (year d) (month d)")
    case True
    with "1.prems" have "addDays d n = d\<lparr>day := day d + n\<rparr>"
      by (subst addDays.simps) simp
    with "1.prems" True show ?thesis
      by (simp add: isValid_def toDays_def)
  next
    case False
    let ?k = "n - (daysInMonth (year d) (month d) - day d + 1)"
    from "1.prems" have m: "1 \<le> month d" "month d \<le> 12" by (simp_all add: isValid_def)
    from False "1.prems" have k: "0 \<le> ?k" by simp
    have g: "\<not> (n < 0 \<or> \<not> isValid d)" using "1.prems" by simp
    have v: "isValid (firstOfNextMonth d)"
      using "1.prems" by (simp add: isValid_firstOfNextMonth)
    have IH: "isValid (addDays (firstOfNextMonth d) ?k) \<and>
        toDays (addDays (firstOfNextMonth d) ?k) = toDays (firstOfNextMonth d) + ?k"
      by (rule "1.IH"[OF g False v k])
    have "addDays d n = addDays (firstOfNextMonth d) ?k"
      using "1.prems" False by (subst addDays.simps) simp
    with IH toDays_firstOfNextMonth[OF m] show ?thesis by simp
  qed
qed

lemma subDays_correct:
  "isValid d \<Longrightarrow> 0 \<le> n \<Longrightarrow>
     isValid (subDays d n) \<and> toDays (subDays d n) = toDays d - n"
proof (induction d n rule: subDays.induct)
  case (1 d n)
  show ?case
  proof (cases "n < day d")
    case True
    with "1.prems" have "subDays d n = d\<lparr>day := day d - n\<rparr>"
      by (subst subDays.simps) simp
    with "1.prems" True show ?thesis
      by (simp add: isValid_def toDays_def)
  next
    case False
    from "1.prems" have m: "1 \<le> month d" "month d \<le> 12" by (simp_all add: isValid_def)
    from False have k: "0 \<le> n - day d" by simp
    have g: "\<not> (n < 0 \<or> \<not> isValid d)" using "1.prems" by simp
    have v: "isValid (lastOfPrevMonth d)"
      using "1.prems" by (simp add: isValid_lastOfPrevMonth)
    have IH: "isValid (subDays (lastOfPrevMonth d) (n - day d)) \<and>
        toDays (subDays (lastOfPrevMonth d) (n - day d))
          = toDays (lastOfPrevMonth d) - (n - day d)"
      by (rule "1.IH"[OF g False v k])
    have "subDays d n = subDays (lastOfPrevMonth d) (n - day d)"
      using "1.prems" False by (subst subDays.simps) simp
    with IH toDays_lastOfPrevMonth[OF m] show ?thesis by simp
  qed
qed

lemma isValid_plusDays: "isValid d \<Longrightarrow> isValid (plusDays d n)"
  by (simp add: plusDays_def addDays_correct subDays_correct)

lemma toDays_plusDays: "isValid d \<Longrightarrow> toDays (plusDays d n) = toDays d + n"
  by (simp add: plusDays_def addDays_correct subDays_correct)

lemma plusDays_invalid: "\<not> isValid d \<Longrightarrow> plusDays d n = d"
  by (simp add: plusDays_def addDays.simps[of d] subDays.simps[of d])

lemma isValid_plusWeeks: "isValid d \<Longrightarrow> isValid (plusWeeks d n)"
  by (simp add: plusWeeks_def isValid_plusDays)

lemma toDays_plusWeeks: "isValid d \<Longrightarrow> toDays (plusWeeks d n) = toDays d + 7 * n"
  by (simp add: plusWeeks_def toDays_plusDays)

lemma plusMonths_1:
  assumes "isValid d"
  shows "plusMonths d 1 =
     (if month d < 12 then \<lparr> year = year d, month = month d + 1, day = min (day d) (daysInMonth (year d) (month d + 1)) \<rparr>
      else \<lparr> year = year d + 1, month = 1, day = day d \<rparr>)"
proof -
  from assms have m: "1 \<le> month d" "month d \<le> 12" and dd: "1 \<le> day d" "day d \<le> 31"
    using daysInMonth_bounds(2)[of "year d" "month d"] by (simp_all add: isValid_def)
  show ?thesis
  proof (cases "month d < 12")
    case True
    with m have "month d div 12 = 0" "month d mod 12 = month d" by simp_all
    with True assms show ?thesis by (simp add: plusMonths_def Let_def)
  next
    case False
    with m have "month d = 12" by simp
    moreover have "daysInMonth (year d + 1) 1 = 31" by (simp add: daysInMonth_def)
    ultimately show ?thesis using assms dd by (simp add: plusMonths_def Let_def)
  qed
qed

lemma isValid_plusMonths_1:
  assumes "isValid d"
  shows "isValid (plusMonths d 1)"
proof -
  from assms have m: "1 \<le> month d" "month d \<le> 12" and dd: "1 \<le> day d" "day d \<le> 31"
    using daysInMonth_bounds(2)[of "year d" "month d"] by (simp_all add: isValid_def)
  have j: "daysInMonth (year d + 1) 1 = 31" by (simp add: daysInMonth_def)
  show ?thesis
    using m dd j daysInMonth_pos[of "year d" "month d + 1"]
    by (simp add: plusMonths_1[OF assms] isValid_def)
qed

lemma toDays_plusMonths_1:
  assumes "isValid d"
  shows "toDays d < toDays (plusMonths d 1)"
proof -
  from assms have m: "1 \<le> month d" "month d \<le> 12" and dd: "1 \<le> day d" 
     "day d \<le> daysInMonth (year d) (month d)"
    by (simp_all add: isValid_def)
  show ?thesis
  proof (cases "month d < 12")
    case True
    have "1 \<le> min (day d) (daysInMonth (year d) (month d + 1))"
      using dd daysInMonth_pos[of "year d" "month d + 1"] by simp
    with True show ?thesis
      using daysBeforeMonth_Suc[of "month d" "year d"] m dd
      by (simp add: plusMonths_1[OF assms] toDays_def)
  next
    case False
    with m have "month d = 12" by simp
    then show ?thesis
      using daysBeforeYear_Suc[of "year d"] daysBeforeMonth_12[of "year d"]
      by (simp add: plusMonths_1[OF assms] toDays_def daysBeforeMonth_def)
  qed
qed

lemma daysBeforeYear_mono_aux: "daysBeforeYear y \<le> daysBeforeYear (y + int n)"
proof (induction n)
  case 0
  show ?case by simp
next
  case (Suc n)
  have e: "y + int (Suc n) = (y + int n) + 1" by simp
  have "daysBeforeYear (y + int n) \<le> daysBeforeYear ((y + int n) + 1)"
    unfolding daysBeforeYear_Suc by simp
  with Suc show ?case unfolding e by (rule order_trans)
qed

lemma daysBeforeYear_mono: "y \<le> y' \<Longrightarrow> daysBeforeYear y \<le> daysBeforeYear y'"
  using daysBeforeYear_mono_aux[of y "nat (y' - y)"] by simp

lemma daysBeforeMonth_mono_aux:
  "1 \<le> m \<Longrightarrow> m + int n \<le> 12 \<Longrightarrow> daysBeforeMonth y m \<le> daysBeforeMonth y (m + int n)"
proof (induction n)
  case 0
  show ?case by simp
next
  case (Suc n)
  have e: "m + int (Suc n) = (m + int n) + 1" by simp
  have "daysBeforeMonth y ((m + int n) + 1)
          = daysBeforeMonth y (m + int n) + daysInMonth y (m + int n)"
    using Suc.prems by (intro daysBeforeMonth_Suc) simp_all
  hence "daysBeforeMonth y (m + int n) \<le> daysBeforeMonth y ((m + int n) + 1)"
    using daysInMonth_pos[of y "m + int n"] by linarith
  moreover have "daysBeforeMonth y m \<le> daysBeforeMonth y (m + int n)"
    using Suc by simp
  ultimately show ?case unfolding e by (rule order_trans[rotated])
qed

lemma daysBeforeMonth_mono:
  "1 \<le> m \<Longrightarrow> m \<le> m' \<Longrightarrow> m' \<le> 12 \<Longrightarrow> daysBeforeMonth y m \<le> daysBeforeMonth y m'"
  using daysBeforeMonth_mono_aux[of m "nat (m' - m)" y] by simp

lemma daysBeforeMonth_nonneg: "1 \<le> m \<Longrightarrow> m \<le> 12 \<Longrightarrow> 0 \<le> daysBeforeMonth y m"
  using daysBeforeMonth_mono[of 1 m y] by (simp add: daysBeforeMonth_def)

lemma month_end_le_year:
  assumes "1 \<le> m" and "m \<le> 12"
  shows "daysBeforeMonth y m + daysInMonth y m \<le> (if isLeapYear y then 366 else 365)"
proof (cases "m < 12")
  case True
  hence "daysBeforeMonth y m + daysInMonth y m = daysBeforeMonth y (m + 1)"
    using assms daysBeforeMonth_Suc[of m y] by simp
  also have "\<dots> \<le> daysBeforeMonth y 12"
    using True assms by (intro daysBeforeMonth_mono) simp_all
  also have "\<dots> \<le> (if isLeapYear y then 366 else 365)"
    using daysBeforeMonth_12[of y] by (simp split: if_splits)
  finally show ?thesis .
next
  case False
  with assms have "m = 12" by simp
  thus ?thesis using daysBeforeMonth_12[of y] by (simp add: daysInMonth_12)
qed

lemma toDays_year_bounds:
  assumes "isValid d"
  shows "daysBeforeYear (year d) < toDays d" and "toDays d \<le> daysBeforeYear (year d + 1)"
proof -
  from assms have m: "1 \<le> month d" "month d \<le> 12" and dd: "1 \<le> day d"
      "day d \<le> daysInMonth (year d) (month d)"
    by (simp_all add: isValid_def)
  show "daysBeforeYear (year d) < toDays d"
    using daysBeforeMonth_nonneg[OF m, of "year d"] dd by (simp add: toDays_def)
  show "toDays d \<le> daysBeforeYear (year d + 1)"
    using month_end_le_year[OF m, of "year d"] dd daysBeforeYear_Suc[of "year d"]
    by (simp add: toDays_def split: if_splits)
qed

lemma toDays_year_less:
  assumes "isValid a" and "isValid b" and "year a < year b"
  shows "toDays a < toDays b"
proof -
  have "toDays a \<le> daysBeforeYear (year a + 1)" using assms(1) by (rule toDays_year_bounds)
  also have "\<dots> \<le> daysBeforeYear (year b)" using assms(3) by (intro daysBeforeYear_mono) simp
  also have "\<dots> < toDays b" using assms(2) by (rule toDays_year_bounds)
  finally show ?thesis .
qed

lemma toDays_month_less:
  assumes "isValid a" and "isValid b" and "year a = year b" and "month a < month b"
  shows "toDays a < toDays b"
proof -
  from assms(1) have ma: "1 \<le> month a" "month a \<le> 12" and da: "1 \<le> day a"
      "day a \<le> daysInMonth (year a) (month a)"
    by (simp_all add: isValid_def)
  from assms(2) have mb: "1 \<le> month b" "month b \<le> 12" and db: "1 \<le> day b"
    by (simp_all add: isValid_def)
  have "daysBeforeMonth (year a) (month a) + day a \<le> daysBeforeMonth (year a) (month a + 1)"
    using daysBeforeMonth_Suc[of "month a" "year a"] ma mb assms(4) da by simp
  also have "\<dots> \<le> daysBeforeMonth (year a) (month b)"
    using ma mb assms(4) by (intro daysBeforeMonth_mono) simp_all
  finally show ?thesis using db assms(3) by (simp add: toDays_def)
qed

lemma toDays_inj:
  assumes "isValid a" and "isValid b" and "toDays a = toDays b"
  shows "a = b"
proof -
  have y: "year a = year b"
    using toDays_year_less[OF assms(1,2)] toDays_year_less[OF assms(2,1)] assms(3)
    by (cases "year a < year b"; cases "year b < year a") simp_all
  have m: "month a = month b"
    using toDays_month_less[OF assms(1,2) y] toDays_month_less[OF assms(2,1) y[symmetric]] assms(3)
    by (cases "month a < month b"; cases "month b < month a") simp_all
  have "day a = day b" using assms(3) y m by (simp add: toDays_def)
  with y m show ?thesis by simp
qed

lemma mod_pred:
  assumes "0 < (k::int)" and "y mod k \<noteq> 0"
  shows "(y - 1) mod k = y mod k - 1"
proof -
  have "0 \<le> y mod k" using assms(1) by (rule pos_mod_sign)
  with assms(2) have r1: "0 \<le> y mod k - 1" by linarith
  have "y mod k < k" using assms(1) by (rule pos_mod_bound)
  hence r2: "y mod k - 1 < k" by linarith
  have "k * (y div k) + y mod k = y" by (rule mult_div_mod_eq)
  hence "y - 1 = k * (y div k) + (y mod k - 1)" by (simp add: algebra_simps)
  thus ?thesis using r1 r2 by (rule int_mod_pos_eq)
qed

lemma weekday_step:
  assumes "1 \<le> L" and "L \<le> 7" and "(t - 1) mod 7 + 1 \<noteq> L"
  shows "(L - (t + 1)) mod 7 < (L - t) mod (7::int)"
proof -
  have nz: "(L - t) mod 7 \<noteq> 0"
  proof
    assume "(L - t) mod 7 = 0"
    then obtain q where q: "L - t = 7 * q" by (auto simp: mod_eq_0_iff_dvd)
    hence "t - 1 = (L - 1) + 7 * (- q)" by simp
    hence "(t - 1) mod 7 = (L - 1) mod 7" by (simp only: mod_mult_self2)
    also have "\<dots> = L - 1" using assms(1,2) by simp
    finally show False using assms(3) by simp
  qed
  have "L - (t + 1) = (L - t) - 1" by simp
  hence "(L - (t + 1)) mod 7 = ((L - t) - 1) mod 7" by (simp only:)
  also have "\<dots> = (L - t) mod 7 - 1" using nz by (intro mod_pred) simp_all
  finally show ?thesis by simp
qed

lemma dt_le_valid: "dt_le a b \<Longrightarrow> isValid a"
  by (simp add: dt_le_def)

lemma dt_lt_valid: "dt_lt a b \<Longrightarrow> isValid a"
  by (simp add: dt_lt_def)

section \<open>Sorting with a comparator\<close>

text \<open>
  \<open>Array.prototype.sort(cmp)\<close> is a stable sort (ECMAScript 2019): an element moves in
  front of another one only where the comparator is positive.  It is modelled by insertion
  from the right, which leaves elements that the comparator does not separate in their order.
\<close>

fun js_insert :: "('a \<Rightarrow> 'a \<Rightarrow> int) \<Rightarrow> 'a \<Rightarrow> 'a list \<Rightarrow> 'a list" where
  "js_insert cmp x [] = [x]"
| "js_insert cmp x (y # ys) = (if cmp x y \<le> 0 then x # y # ys else y # js_insert cmp x ys)"

definition js_sort :: "('a \<Rightarrow> 'a \<Rightarrow> int) \<Rightarrow> 'a list \<Rightarrow> 'a list" where
  "js_sort cmp xs = foldr (js_insert cmp) xs []"

lemma set_js_insert: "set (js_insert cmp x xs) = insert x (set xs)"
  by (induction xs) auto

lemma set_js_sort: "set (js_sort cmp xs) = set xs"
  by (induction xs) (simp_all add: js_sort_def set_js_insert)

lemma length_js_insert: "length (js_insert cmp x xs) = Suc (length xs)"
  by (induction xs) auto

lemma length_js_sort: "length (js_sort cmp xs) = length xs"
  by (induction xs) (simp_all add: js_sort_def length_js_insert)

lemma sorted_js_insert:
  assumes tot: "\<And>a b. cmp a b \<le> 0 \<or> cmp b a \<le> 0"
    and tr: "\<And>a b c. cmp a b \<le> 0 \<Longrightarrow> cmp b c \<le> 0 \<Longrightarrow> cmp a c \<le> 0"
  shows "sorted_wrt (\<lambda>a b. cmp a b \<le> 0) xs
           \<Longrightarrow> sorted_wrt (\<lambda>a b. cmp a b \<le> 0) (js_insert cmp x xs)"
proof (induction xs)
  case Nil
  show ?case by simp
next
  case (Cons y ys)
  show ?case
  proof (cases "cmp x y \<le> 0")
    case True
    have "\<forall>z\<in>set ys. cmp x z \<le> 0"
      using Cons.prems True tr by auto
    with True Cons.prems show ?thesis by simp
  next
    case False
    hence yx: "cmp y x \<le> 0" using tot[of x y] by simp
    have "sorted_wrt (\<lambda>a b. cmp a b \<le> 0) (js_insert cmp x ys)"
      using Cons by simp
    moreover have "\<forall>z\<in>set (js_insert cmp x ys). cmp y z \<le> 0"
      using Cons.prems yx by (simp add: set_js_insert)
    ultimately show ?thesis using False by simp
  qed
qed

lemma sorted_js_sort:
  assumes tot: "\<And>a b. cmp a b \<le> 0 \<or> cmp b a \<le> 0"
    and tr: "\<And>a b c. cmp a b \<le> 0 \<Longrightarrow> cmp b c \<le> 0 \<Longrightarrow> cmp a c \<le> 0"
  shows "sorted_wrt (\<lambda>a b. cmp a b \<le> 0) (js_sort cmp xs)"
proof (induction xs)
  case Nil
  show ?case by (simp add: js_sort_def)
next
  case (Cons x xs)
  have "js_sort cmp (x # xs) = js_insert cmp x (js_sort cmp xs)" by (simp add: js_sort_def)
  with Cons sorted_js_insert[of cmp, OF tot tr] show ?case by simp
qed

text \<open>Elements that the comparator does not separate keep their order.\<close>

lemma filter_js_insert:
  assumes "\<And>y. P y \<Longrightarrow> P x \<Longrightarrow> cmp x y \<le> 0"
  shows "filter P (js_insert cmp x xs) = (if P x then x # filter P xs else filter P xs)"
  using assms by (induction xs) auto

lemma filter_js_sort:
  assumes "\<And>x y. P x \<Longrightarrow> P y \<Longrightarrow> cmp x y \<le> 0"
  shows "filter P (js_sort cmp xs) = filter P xs"
proof (induction xs)
  case Nil
  show ?case by (simp add: js_sort_def)
next
  case (Cons x xs)
  have "js_sort cmp (x # xs) = js_insert cmp x (js_sort cmp xs)" by (simp add: js_sort_def)
  with Cons filter_js_insert[of P x cmp "js_sort cmp xs"] assms show ?case by simp
qed

section \<open>Data model\<close>

datatype kind = Income | Expense | Transfer | Balance | OtherKind

datatype adjustment = AdjNone | NextBusinessDay | PrevBusinessDay | AdjOther

text \<open>
  A recurrence is discriminated by its \<open>type\<close> string; a string that is none of the four
  known ones is \<open>UnknownRecurrence\<close>.  The numeric fields may be absent.
\<close>

datatype recurrence =
    MonthlyDay "int option"
  | SemimonthlyDays "int option" "int option"
  | BiweeklyAnchor date
  | WeeklyDow "int option"
  | UnknownRecurrence

text \<open>
  A rule.  \<open>enabled\<close> is \<open>Some True\<close> for a truthy value, \<open>Some False\<close> for \<open>false\<close>
  and \<open>None\<close> for an absent flag (and any other falsy value, which every test of the source
  treats as the absent one).  An absent or empty string field is \<open>None\<close> or \<open>[]\<close>.
\<close>

record rule =
  rule_id :: string
  rule_name :: string
  rule_accountId :: string
  rule_kind :: kind
  rule_amount :: rat
  rule_category :: string
  rule_tags :: "string list"
  enabled :: "bool option"
  rule_priority :: "int option"
  rule_adjustment :: "adjustment option"
  validFrom :: "date option"
  validTo :: "date option"
  rule_recurrence :: "recurrence option"
  followsRuleId :: "string option"
  rule_toAccountId :: "string option"

record oneOff =
  oo_id :: string
  oo_date :: date
  oo_name :: string
  oo_accountId :: string
  oo_amount :: rat
  oo_category :: string
  oo_tags :: "string list"

record account =
  acc_id :: string
  acc_name :: string
  acc_type :: string

record startingBalanceRec =
  sb_accountId :: string
  sb_date :: date
  sb_amount :: rat

record settings =
  forecastHorizonDays :: "int option"
  weekendsAreNonBusinessDays :: "bool option"

record model =
  accounts :: "account list"
  startingBalances :: "startingBalanceRec list"
  rules :: "rule list"
  oneOffs :: "oneOff list"
  model_settings :: settings

text \<open>An occurrence of a rule or a one-off, as the pipeline passes it on.\<close>

record transaction =
  tx_date :: date
  tx_ruleId :: "string option"
  tx_oneOffId :: "string option"
  tx_name :: string
  tx_accountId :: string
  tx_kind :: kind
  tx_amount :: rat
  tx_category :: string
  tx_tags :: "string list"
  tx_priority :: int
  tx_adjustment :: "adjustment option"
  tx_toAccountId :: "string option"
  tx_originalDate :: "date option"
  tx_wasAdjusted :: "bool option"
  tx_isOneOff :: bool

definition int_or :: "int option \<Rightarrow> int \<Rightarrow> int" where
  "int_or x d = (case x of None \<Rightarrow> d | Some v \<Rightarrow> if v = 0 then d else v)"

text \<open>The remainder \<open>a % b\<close> of JavaScript takes the sign of \<open>a\<close>.\<close>

definition js_rem :: "int \<Rightarrow> int \<Rightarrow> int" where
  "js_rem a b = sgn a * (\<bar>a\<bar> mod \<bar>b\<bar>)"

section \<open>Recurrence module\<close>

definition getValidDayOfMonth :: "date \<Rightarrow> int \<Rightarrow> date" where
  "getValidDayOfMonth monthStart dy =
     (let actualDay = min dy (daysInMonth (year monthStart) (month monthStart))
      in setDay monthStart actualDay)"

text \<open>The loop of \<open>expandMonthlyDay\<close>, from the month start \<open>current\<close>.\<close>

function expandMonthlyLoop :: "int \<Rightarrow> date \<Rightarrow> date \<Rightarrow> date \<Rightarrow> date list" where
  "expandMonthlyLoop dy start wEnd current =
     (if dt_le current wEnd
      then (let targetDate = getValidDayOfMonth current dy
            in (if dt_le start targetDate \<and> dt_le targetDate wEnd then [targetDate] else []))
           @ expandMonthlyLoop dy start wEnd (plusMonths current 1)
      else [])"
  by pat_completeness simp_all
termination
proof (relation "measure (\<lambda>(dy, s, e, c). nat (toDays e - toDays c + 1))", goal_cases)
  case 1
  show ?case by simp
next
  case (2 dy start wEnd current)
  then have "isValid current" by (simp add: dt_le_def)
  from toDays_plusMonths_1[OF this] 2 show ?case by (simp add: dt_le_def)
qed

declare expandMonthlyLoop.simps [simp del]

definition expandMonthlyDay :: "int option \<Rightarrow> date \<Rightarrow> date \<Rightarrow> date list" where
  "expandMonthlyDay dayField start wEnd =
     expandMonthlyLoop (int_or dayField 1) start wEnd (startOfMonth start)"

function expandSemimonthlyLoop ::
  "int \<Rightarrow> int \<Rightarrow> date \<Rightarrow> date \<Rightarrow> date \<Rightarrow> date list" where
  "expandSemimonthlyLoop day1 day2 start wEnd current =
     (if dt_le current wEnd
      then (let date1 = getValidDayOfMonth current day1;
                date2 = getValidDayOfMonth current day2
            in (if dt_le start date1 \<and> dt_le date1 wEnd then [date1] else []) @
               (if dt_le start date2 \<and> dt_le date2 wEnd then [date2] else []))
           @ expandSemimonthlyLoop day1 day2 start wEnd (plusMonths current 1)
      else [])"
  by pat_completeness simp_all
termination
proof (relation "measure (\<lambda>(d1, d2, s, e, c). nat (toDays e - toDays c + 1))", goal_cases)
  case 1
  show ?case by simp
next
  case (2 day1 day2 start wEnd current)
  then have "isValid current" by (simp add: dt_le_def)
  from toDays_plusMonths_1[OF this] 2 show ?case by (simp add: dt_le_def)
qed

declare expandSemimonthlyLoop.simps [simp del]

definition expandSemimonthlyDays ::
  "int option \<Rightarrow> int option \<Rightarrow> date \<Rightarrow> date \<Rightarrow> date list" where
  "expandSemimonthlyDays day1Field day2Field start wEnd =
     js_sort (\<lambda>a b. if dt_lt a b then - 1 else 1)
       (expandSemimonthlyLoop (int_or day1Field 1) (int_or day2Field 15) start wEnd
          (startOfMonth start))"

text \<open>The two loops of \<open>expandBiweeklyAnchor\<close>.\<close>

function biweeklySkip :: "date \<Rightarrow> date \<Rightarrow> date" where
  "biweeklySkip start current =
     (if dt_lt current start then biweeklySkip start (plusWeeks current 2) else current)"
  by pat_completeness simp_all
termination
proof (relation "measure (\<lambda>(s, c). nat (toDays s - toDays c))", goal_cases)
  case 1
  show ?case by simp
next
  case (2 start current)
  then have v: "isValid current" and lt: "toDays current < toDays start"
    by (simp_all add: dt_lt_def)
  have "toDays (plusWeeks current 2) = toDays current + 14"
    using toDays_plusWeeks[OF v, of 2] by simp
  with lt show ?case by simp
qed

declare biweeklySkip.simps [simp del]

function biweeklyEmit :: "date \<Rightarrow> date \<Rightarrow> date list" where
  "biweeklyEmit wEnd current =
     (if dt_le current wEnd then current # biweeklyEmit wEnd (plusWeeks current 2) else [])"
  by pat_completeness simp_all
termination
proof (relation "measure (\<lambda>(e, c). nat (toDays e - toDays c + 1))", goal_cases)
  case 1
  show ?case by simp
next
  case (2 wEnd current)
  then have v: "isValid current" and le: "toDays current \<le> toDays wEnd"
    by (simp_all add: dt_le_def)
  have "toDays (plusWeeks current 2) = toDays current + 14"
    using toDays_plusWeeks[OF v, of 2] by simp
  with le show ?case by simp
qed

declare biweeklyEmit.simps [simp del]

text \<open>
  With a valid anchor and an invalid window start, \<open>daysDiff\<close> is \<open>NaN\<close> and
  \<open>anchor.plus({weeks: NaN})\<close> throws: the call has no result (\<open>None\<close>).
\<close>

definition expandBiweeklyAnchor :: "date \<Rightarrow> date \<Rightarrow> date \<Rightarrow> date list option" where
  "expandBiweeklyAnchor anchorDate start wEnd =
     (if \<not> isValid anchorDate then Some []
      else case diffDays start anchorDate of
        None \<Rightarrow> None
      | Some daysDiff \<Rightarrow>
          (let weeksToAdd = daysDiff div 14;
               weeksToAdd' = (if js_rem daysDiff 14 \<noteq> 0 \<and> daysDiff > 0
                              then weeksToAdd + 1 else weeksToAdd);
               current = plusWeeks anchorDate (weeksToAdd' * 2)
           in Some (biweeklyEmit wEnd (biweeklySkip start current))))"

text \<open>
  The first loop of \<open>expandWeeklyDow\<close> steps a day at a time until the weekday is the one
  asked for.  It does not end when the date is invalid (its weekday is \<open>NaN\<close>) or when the
  weekday asked for is none of Luxon's 1 to 7: then there is no result (\<open>None\<close>).
\<close>

function seekWeekday :: "int \<Rightarrow> date \<Rightarrow> date option" where
  "seekWeekday luxonDow current =
     (case weekday current of
        None \<Rightarrow> None
      | Some w \<Rightarrow>
          if w = luxonDow then Some current
          else if luxonDow < 1 \<or> 7 < luxonDow then None
          else seekWeekday luxonDow (plusDays current 1))"
  by pat_completeness simp_all
termination
proof (relation "measure (\<lambda>(l, c). nat ((l - toDays c) mod 7))", goal_cases)
  case 1
  show ?case by simp
next
  case (2 luxonDow current w)
  then have v: "isValid current" and w: "w = (toDays current - 1) mod 7 + 1"
    by (auto simp: weekday_def split: if_splits)
  from 2 w have "(luxonDow - (toDays current + 1)) mod 7 < (luxonDow - toDays current) mod 7"
    by (intro weekday_step) simp_all
  with v show ?case by (simp add: toDays_plusDays)
qed

declare seekWeekday.simps [simp del]

function weeklyEmit :: "date \<Rightarrow> date \<Rightarrow> date list" where
  "weeklyEmit wEnd current =
     (if dt_le current wEnd then current # weeklyEmit wEnd (plusWeeks current 1) else [])"
  by pat_completeness simp_all
termination
proof (relation "measure (\<lambda>(e, c). nat (toDays e - toDays c + 1))", goal_cases)
  case 1
  show ?case by simp
next
  case (2 wEnd current)
  then have v: "isValid current" and le: "toDays current \<le> toDays wEnd"
    by (simp_all add: dt_le_def)
  have "toDays (plusWeeks current 1) = toDays current + 7"
    using toDays_plusWeeks[OF v, of 1] by simp
  with le show ?case by simp
qed

declare weeklyEmit.simps [simp del]

definition expandWeeklyDow :: "int option \<Rightarrow> date \<Rightarrow> date \<Rightarrow> date list option" where
  "expandWeeklyDow dayOfWeek start wEnd =
     (let dow = (case dayOfWeek of None \<Rightarrow> 0 | Some v \<Rightarrow> v);
          luxonDow = dow + 1
      in case seekWeekday luxonDow start of
           None \<Rightarrow> None
         | Some current \<Rightarrow> Some (weeklyEmit wEnd current))"

subsection \<open>Facts about the expansion loops\<close>

lemma biweeklySkip_aligned:
  "isValid c \<Longrightarrow>
     isValid (biweeklySkip s c) \<and>
     (\<exists>j\<ge>0. toDays (biweeklySkip s c) = toDays c + 14 * j) \<and>
     (isValid s \<longrightarrow> toDays s \<le> toDays (biweeklySkip s c))"
proof (induction s c rule: biweeklySkip.induct)
  case (1 start current)
  show ?case
  proof (cases "dt_lt current start")
    case True
    have v: "isValid (plusWeeks current 2)" using "1.prems" by (rule isValid_plusWeeks)
    have t: "toDays (plusWeeks current 2) = toDays current + 14"
      using toDays_plusWeeks[OF "1.prems", of 2] by simp
    from "1.IH"[OF True v] obtain j where j: "0 \<le> j"
        "toDays (biweeklySkip start (plusWeeks current 2)) = toDays (plusWeeks current 2) + 14 * j"
      and rest: "isValid (biweeklySkip start (plusWeeks current 2))"
        "isValid start \<longrightarrow> toDays start \<le> toDays (biweeklySkip start (plusWeeks current 2))"
      by blast
    have e: "biweeklySkip start current = biweeklySkip start (plusWeeks current 2)"
      using True by (subst biweeklySkip.simps) simp
    have "toDays (biweeklySkip start current) = toDays current + 14 * (j + 1)"
      using j(2) t e by simp
    moreover have "0 \<le> j + 1" using j(1) by simp
    ultimately have "\<exists>k\<ge>0. toDays (biweeklySkip start current) = toDays current + 14 * k"
      by blast
    with rest e show ?thesis by simp
  next
    case False
    hence e: "biweeklySkip start current = current" by (subst biweeklySkip.simps) simp
    have "toDays current = toDays current + 14 * 0" by simp
    hence "\<exists>k\<ge>0. toDays current = toDays current + 14 * (k::int)" by blast
    moreover have "isValid start \<longrightarrow> toDays start \<le> toDays current"
      using False "1.prems" by (auto simp: dt_lt_def)
    ultimately show ?thesis using e "1.prems" by simp
  qed
qed

lemma biweeklyEmit_aligned:
  "isValid c \<Longrightarrow> d \<in> set (biweeklyEmit e c) \<Longrightarrow>
     isValid d \<and> (\<exists>j\<ge>0. toDays d = toDays c + 14 * j) \<and> dt_le d e"
proof (induction e c rule: biweeklyEmit.induct)
  case (1 wEnd current)
  show ?case
  proof (cases "dt_le current wEnd")
    case True
    hence e: "biweeklyEmit wEnd current = current # biweeklyEmit wEnd (plusWeeks current 2)"
      by (subst biweeklyEmit.simps) simp
    show ?thesis
    proof (cases "d = current")
      case True
      have "toDays current = toDays current + 14 * 0" by simp
      hence "\<exists>k\<ge>0. toDays current = toDays current + 14 * (k::int)" by blast
      with True \<open>dt_le current wEnd\<close> "1.prems" show ?thesis by simp
    next
      case False
      with "1.prems" e have mem: "d \<in> set (biweeklyEmit wEnd (plusWeeks current 2))" by simp
      have v: "isValid (plusWeeks current 2)" using "1.prems"(1) by (rule isValid_plusWeeks)
      have t: "toDays (plusWeeks current 2) = toDays current + 14"
        using toDays_plusWeeks[OF "1.prems"(1), of 2] by simp
      from "1.IH"[OF True v mem] obtain j where j: "0 \<le> j"
          "toDays d = toDays (plusWeeks current 2) + 14 * j"
        and rest: "isValid d" "dt_le d wEnd"
        by blast
      have "toDays d = toDays current + 14 * (j + 1)" using j(2) t by simp
      moreover have "0 \<le> j + 1" using j(1) by simp
      ultimately have "\<exists>k\<ge>0. toDays d = toDays current + 14 * k" by blast
      with rest show ?thesis by simp
    qed
  next
    case False
    hence "biweeklyEmit wEnd current = []" by (subst biweeklyEmit.simps) simp
    with "1.prems" show ?thesis by simp
  qed
qed

lemma plusDays_unique:
  "isValid a \<Longrightarrow> isValid d \<Longrightarrow> toDays d = toDays a + n \<Longrightarrow> d = plusDays a n"
  by (rule toDays_inj) (simp_all add: isValid_plusDays toDays_plusDays)

lemma expandBiweeklyAnchor_aligned:
  assumes "isValid anchorDate"
    and "expandBiweeklyAnchor anchorDate start wEnd = Some ds"
    and "d \<in> set ds"
  shows "\<exists>k. d = plusDays anchorDate (14 * k) \<and> toDays d = toDays anchorDate + 14 * k
           \<and> dt_le start d \<and> dt_le d wEnd"
proof -
  from assms(1,2) obtain daysDiff where dd: "diffDays start anchorDate = Some daysDiff"
    by (auto simp: expandBiweeklyAnchor_def split: option.splits)
  hence vs: "isValid start" by (simp add: diffDays_def split: if_splits)
  define w where "w = (if js_rem daysDiff 14 \<noteq> 0 \<and> daysDiff > 0
                       then daysDiff div 14 + 1 else daysDiff div 14)"
  define c0 where "c0 = plusWeeks anchorDate (w * 2)"
  have ds: "ds = biweeklyEmit wEnd (biweeklySkip start c0)"
    using assms(1,2) dd by (simp add: expandBiweeklyAnchor_def Let_def w_def c0_def)
  have v0: "isValid c0" unfolding c0_def using assms(1) by (rule isValid_plusWeeks)
  have t0: "toDays c0 = toDays anchorDate + 14 * w"
    unfolding c0_def using toDays_plusWeeks[OF assms(1), of "w * 2"] by simp
  from biweeklySkip_aligned[OF v0, of start] obtain j1 where
      v1: "isValid (biweeklySkip start c0)"
      and j1: "toDays (biweeklySkip start c0) = toDays c0 + 14 * j1"
      and s1: "toDays start \<le> toDays (biweeklySkip start c0)"
    using vs by blast
  from biweeklyEmit_aligned[OF v1, of d wEnd] assms(3) ds obtain j2 where
      vd: "isValid d" and j2: "0 \<le> j2" "toDays d = toDays (biweeklySkip start c0) + 14 * j2"
      and le: "dt_le d wEnd"
    by blast
  have td: "toDays d = toDays anchorDate + 14 * (w + j1 + j2)"
    using j2(2) j1 t0 by simp
  have "d = plusDays anchorDate (14 * (w + j1 + j2))"
    using assms(1) vd td by (rule plusDays_unique)
  moreover have "dt_le start d" using vs vd s1 j2 by (simp add: dt_le_def)
  ultimately show ?thesis using td le by blast
qed

lemma plusMonths_first:
  assumes "isValid c" and "day c = 1"
  shows "plusMonths c 1 = firstOfNextMonth c"
  using assms daysInMonth_pos[of "year c" "month c + 1"]
  by (simp add: plusMonths_1 firstOfNextMonth_def)

lemma toDays_next_month:
  assumes "isValid c" and "day c = 1"
  shows "toDays (plusMonths c 1) = toDays c + daysInMonth (year c) (month c)"
proof -
  from assms(1) have m: "1 \<le> month c" "month c \<le> 12" by (simp_all add: isValid_def)
  show ?thesis
    using toDays_firstOfNextMonth[OF m] assms by (simp add: plusMonths_first)
qed

lemma setDay_in_month:
  assumes "isValid c" and "day c = 1" and "1 \<le> k" and "k \<le> daysInMonth (year c) (month c)"
  shows "setDay c k = c\<lparr>day := k\<rparr>"
proof -
  have c1: "c\<lparr>day := 1\<rparr> = c" using assms(2) by simp
  have "setDay c k = addDays c (k - 1)"
    using assms(1,3) by (simp add: setDay_def plusDays_def c1)
  also have "\<dots> = c\<lparr>day := day c + (k - 1)\<rparr>"
    using assms by (subst addDays.simps) simp
  finally show ?thesis using assms(2) by simp
qed

lemma getValidDayOfMonth_first:
  assumes "isValid c" and "day c = 1" and "1 \<le> dy"
  shows "getValidDayOfMonth c dy = c\<lparr>day := min dy (daysInMonth (year c) (month c))\<rparr>"
  using assms daysInMonth_pos[of "year c" "month c"]
  by (simp add: getValidDayOfMonth_def Let_def setDay_in_month)

lemma same_month:
  assumes "isValid c" and "day c = 1" and "isValid d"
    and "toDays c \<le> toDays d" and "toDays d < toDays (plusMonths c 1)"
  shows "year d = year c \<and> month d = month c"
proof -
  define k where "k = toDays d - toDays c + 1"
  have k: "1 \<le> k" "k \<le> daysInMonth (year c) (month c)"
    using assms(4,5) toDays_next_month[OF assms(1,2)] by (simp_all add: k_def)
  have v: "isValid (c\<lparr>day := k\<rparr>)" using assms(1) k by (simp add: isValid_def)
  have "toDays (c\<lparr>day := k\<rparr>) = toDays d"
    using assms(2) by (simp add: toDays_def k_def)
  with v assms(3) have "c\<lparr>day := k\<rparr> = d" by (intro toDays_inj)
  thus ?thesis by (metis date.select_convs(1,2) date.surjective date.update_convs(3))
qed

text \<open>
  The dates a \<open>monthly_day\<close> recurrence aims at: day \<open>min(dy, daysInMonth)\<close> of a month,
  inside the window.
\<close>

definition monthlyTarget :: "int \<Rightarrow> date \<Rightarrow> date \<Rightarrow> date \<Rightarrow> bool" where
  "monthlyTarget dy start wEnd d =
     (isValid d \<and> day d = min dy (daysInMonth (year d) (month d))
      \<and> dt_le start d \<and> dt_le d wEnd)"

lemma expandMonthlyLoop_set:
  "isValid c \<Longrightarrow> day c = 1 \<Longrightarrow> 1 \<le> dy \<Longrightarrow>
     set (expandMonthlyLoop dy start wEnd c)
       = {d. monthlyTarget dy start wEnd d \<and> toDays c \<le> toDays d}
     \<and> distinct (expandMonthlyLoop dy start wEnd c)"
proof (induction dy start wEnd c rule: expandMonthlyLoop.induct)
  case (1 dy start wEnd current)
  note v = "1.prems"(1) and d1 = "1.prems"(2) and dy = "1.prems"(3)
  show ?case
  proof (cases "dt_le current wEnd")
    case False
    hence e: "expandMonthlyLoop dy start wEnd current = []"
      by (subst expandMonthlyLoop.simps) simp
    have "{d. monthlyTarget dy start wEnd d \<and> toDays current \<le> toDays d} = {}"
      using False v by (auto simp: monthlyTarget_def dt_le_def)
    with e show ?thesis by simp
  next
    case True
    let ?next = "plusMonths current 1"
    let ?t = "current\<lparr>day := min dy (daysInMonth (year current) (month current))\<rparr>"
    let ?here = "if dt_le start ?t \<and> dt_le ?t wEnd then [?t] else []"
    have tgt: "getValidDayOfMonth current dy = ?t"
      using v d1 dy by (rule getValidDayOfMonth_first)
    have e: "expandMonthlyLoop dy start wEnd current
               = ?here @ expandMonthlyLoop dy start wEnd ?next"
      using True tgt by (subst expandMonthlyLoop.simps) (simp add: Let_def)
    have vn: "isValid ?next" using v by (rule isValid_plusMonths_1)
    have dn: "day ?next = 1" using v d1 by (simp add: plusMonths_first firstOfNextMonth_def)
    have tn: "toDays ?next = toDays current + daysInMonth (year current) (month current)"
      using v d1 by (rule toDays_next_month)
    from "1.IH"[OF True vn dn dy]
    have IH: "set (expandMonthlyLoop dy start wEnd ?next)
                = {d. monthlyTarget dy start wEnd d \<and> toDays ?next \<le> toDays d}"
      and IHd: "distinct (expandMonthlyLoop dy start wEnd ?next)" by simp_all
    have dim1: "1 \<le> min dy (daysInMonth (year current) (month current))"
      using dy daysInMonth_pos[of "year current" "month current"] by simp
    have vt: "isValid ?t" using v dim1 by (simp add: isValid_def)
    have tt: "toDays ?t = toDays current - 1 + min dy (daysInMonth (year current) (month current))"
      using d1 by (simp add: toDays_def)
    have tlt: "toDays ?t < toDays ?next" unfolding tt tn by simp
    have tge: "toDays current \<le> toDays ?t" unfolding tt using dim1 by simp
    have here: "set ?here = {d. monthlyTarget dy start wEnd d \<and> toDays current \<le> toDays d
                                \<and> toDays d < toDays ?next}"
    proof (intro set_eqI iffI)
      fix d assume "d \<in> set ?here"
      hence "d = ?t" and "dt_le start ?t" and "dt_le ?t wEnd" by (simp_all split: if_splits)
      thus "d \<in> {d. monthlyTarget dy start wEnd d \<and> toDays current \<le> toDays d
                                \<and> toDays d < toDays ?next}"
        using vt tlt tge by (simp add: monthlyTarget_def)
    next
      fix d assume "d \<in> {d. monthlyTarget dy start wEnd d \<and> toDays current \<le> toDays d
                                \<and> toDays d < toDays ?next}"
      hence mt: "monthlyTarget dy start wEnd d" and ge: "toDays current \<le> toDays d"
        and lt: "toDays d < toDays ?next" by simp_all
      from mt have vd: "isValid d" by (simp add: monthlyTarget_def)
      from same_month[OF v d1 vd ge lt] have ym: "year d = year current" "month d = month current"
        by simp_all
      with mt have "d = ?t" by (simp add: monthlyTarget_def)
      with mt show "d \<in> set ?here" by (simp add: monthlyTarget_def)
    qed
    have "set (expandMonthlyLoop dy start wEnd current)
            = {d. monthlyTarget dy start wEnd d \<and> toDays current \<le> toDays d}"
      unfolding e set_append here IH using tn daysInMonth_pos[of "year current" "month current"]
      by auto
    moreover have "distinct (expandMonthlyLoop dy start wEnd current)"
      unfolding e using IHd IH tlt by auto
    ultimately show ?thesis by simp
  qed
qed

lemma expandMonthlyDay_set:
  assumes "1 \<le> int_or dayField 1"
  shows "set (expandMonthlyDay dayField start wEnd)
           = {d. monthlyTarget (int_or dayField 1) start wEnd d}
         \<and> distinct (expandMonthlyDay dayField start wEnd)"
proof (cases "isValid start")
  case False
  hence "expandMonthlyDay dayField start wEnd = []"
    unfolding expandMonthlyDay_def
    by (subst expandMonthlyLoop.simps) (simp add: startOfMonth_def dt_le_def)
  moreover have "{d. monthlyTarget (int_or dayField 1) start wEnd d} = {}"
    using False by (auto simp: monthlyTarget_def dt_le_def)
  ultimately show ?thesis by simp
next
  case True
  let ?c = "startOfMonth start"
  from True have m: "1 \<le> day start" by (simp add: isValid_def)
  have vc: "isValid ?c" using True daysInMonth_pos[of "year start" "month start"]
    by (simp add: startOfMonth_def isValid_def)
  have dc: "day ?c = 1" using True by (simp add: startOfMonth_def)
  have tc: "toDays ?c \<le> toDays start" using True m by (simp add: startOfMonth_def toDays_def)
  have "{d. monthlyTarget (int_or dayField 1) start wEnd d \<and> toDays ?c \<le> toDays d}
          = {d. monthlyTarget (int_or dayField 1) start wEnd d}"
    using tc by (auto simp: monthlyTarget_def dt_le_def)
  with expandMonthlyLoop_set[OF vc dc assms, of start wEnd] show ?thesis
    by (simp add: expandMonthlyDay_def)
qed

subsection \<open>Expanding a rule\<close>

definition truthy :: "bool option \<Rightarrow> bool" where
  "truthy e = (e = Some True)"

text \<open>
  The recurrence of the rule, or the one of the rule it follows (one hop, when a model is
  given and the followed rule is found in it).
\<close>

definition resolveRecurrence :: "rule \<Rightarrow> model option \<Rightarrow> recurrence option" where
  "resolveRecurrence r m =
     (case followsRuleId r of
        None \<Rightarrow> rule_recurrence r
      | Some fid \<Rightarrow>
          if fid = [] then rule_recurrence r
          else (case m of
                  None \<Rightarrow> rule_recurrence r
                | Some md \<Rightarrow>
                    (case find (\<lambda>x. rule_id x = fid) (rules md) of
                       Some followedRule \<Rightarrow> rule_recurrence followedRule
                     | None \<Rightarrow> rule_recurrence r)))"

definition expandRecurrence :: "recurrence \<Rightarrow> date \<Rightarrow> date \<Rightarrow> date list option" where
  "expandRecurrence rc start wEnd =
     (case rc of
        MonthlyDay d \<Rightarrow> Some (expandMonthlyDay d start wEnd)
      | SemimonthlyDays d1 d2 \<Rightarrow> Some (expandSemimonthlyDays d1 d2 start wEnd)
      | BiweeklyAnchor a \<Rightarrow> expandBiweeklyAnchor a start wEnd
      | WeeklyDow d \<Rightarrow> expandWeeklyDow d start wEnd
      | UnknownRecurrence \<Rightarrow> Some [])"

definition mkOccurrence :: "rule \<Rightarrow> date \<Rightarrow> transaction" where
  "mkOccurrence r d =
     \<lparr> tx_date = d, tx_ruleId = Some (rule_id r), tx_oneOffId = None, tx_name = rule_name r,
       tx_accountId = rule_accountId r, tx_kind = rule_kind r, tx_amount = rule_amount r,
       tx_category = rule_category r, tx_tags = rule_tags r,
       tx_priority = int_or (rule_priority r) 100,
       tx_adjustment = Some (case rule_adjustment r of None \<Rightarrow> AdjNone | Some a \<Rightarrow> a),
       tx_toAccountId = rule_toAccountId r, tx_originalDate = None, tx_wasAdjusted = None,
       tx_isOneOff = False \<rparr>"

text \<open>\<open>None\<close>: the call does not return (see \<open>seekWeekday\<close>) or throws.\<close>

definition expandRule ::
  "rule \<Rightarrow> date \<Rightarrow> date \<Rightarrow> model option \<Rightarrow> transaction list option" where
  "expandRule r startDate endDate m =
     (if \<not> truthy (enabled r) then Some []
      else
        (let startDate' = (case validFrom r of
                             Some vf \<Rightarrow> if str_lt startDate vf then vf else startDate
                           | None \<Rightarrow> startDate);
             endDate' = (case validTo r of
                           Some vt \<Rightarrow> if str_lt vt endDate then vt else endDate
                         | None \<Rightarrow> endDate)
         in if str_lt endDate' startDate' then Some []
            else (case resolveRecurrence r m of
                    None \<Rightarrow> Some []
                  | Some rc \<Rightarrow>
                      (case expandRecurrence rc startDate' endDate' of
                         None \<Rightarrow> None
                       | Some occurrences \<Rightarrow> Some (map (mkOccurrence r) occurrences)))))"

section \<open>Business-day module\<close>

definition isWeekend :: "date \<Rightarrow> bool" where
  "isWeekend dt = (weekday dt = Some 6 \<or> weekday dt = Some 7)"

text \<open>The setting \<open>weekendsAreNonBusinessDays\<close> counts as true unless it is \<open>false\<close>.\<close>

definition isBusinessDay :: "date \<Rightarrow> bool option \<Rightarrow> bool" where
  "isBusinessDay dt weekendsFlag =
     (let weekendsAreNonBusiness = (weekendsFlag \<noteq> Some False)
      in \<not> (weekendsAreNonBusiness \<and> isWeekend dt))"

lemma mod7_succ:
  "((t::int) + 1) mod 7 = (if t mod 7 = 6 then 0 else t mod 7 + 1)"
proof (cases "(t + 1) mod 7 = 0")
  case True
  then obtain q where "t + 1 = 7 * q" by (auto simp: mod_eq_0_iff_dvd)
  hence "t = 6 + 7 * (q - 1)" by simp
  hence "t mod 7 = 6 mod 7" by (simp only: mod_mult_self2)
  with True show ?thesis by simp
next
  case False
  have "(t + 1 - 1) mod 7 = (t + 1) mod 7 - 1" using False by (intro mod_pred) simp_all
  hence e: "(t + 1) mod 7 = t mod 7 + 1" by simp
  have "(t + 1) mod 7 < 7" by simp
  with e False show ?thesis by simp
qed

lemma not_business_cases:
  assumes "\<not> isBusinessDay d s"
  shows "isValid d \<and> ((toDays d - 1) mod 7 = 5 \<or> (toDays d - 1) mod 7 = 6)"
  using assms by (auto simp: isBusinessDay_def isWeekend_def weekday_def split: if_splits)

text \<open>The loops of \<open>adjustDate\<close>: a day forwards, or backwards, until a business day.\<close>

function walkForward :: "bool option \<Rightarrow> date \<Rightarrow> date" where
  "walkForward s adjusted =
     (if \<not> isBusinessDay adjusted s then walkForward s (plusDays adjusted 1) else adjusted)"
  by pat_completeness simp_all
termination
proof (relation "measure (\<lambda>(s, d). if isBusinessDay d s then 0
          else if (toDays d - 1) mod 7 = 5 then 2 else 1)", goal_cases)
  case 1
  show ?case by simp
next
  case (2 s adjusted)
  from not_business_cases[OF 2] have v: "isValid adjusted"
    and c: "(toDays adjusted - 1) mod 7 = 5 \<or> (toDays adjusted - 1) mod 7 = 6" by simp_all
  have t: "toDays (plusDays adjusted 1) - 1 = (toDays adjusted - 1) + 1"
    using v by (simp add: toDays_plusDays)
  have v': "isValid (plusDays adjusted 1)" using v by (rule isValid_plusDays)
  from c show ?case
  proof
    assume a: "(toDays adjusted - 1) mod 7 = 5"
    hence "(toDays (plusDays adjusted 1) - 1) mod 7 = 6"
      unfolding t mod7_succ by simp
    with a 2 show ?thesis by simp
  next
    assume a: "(toDays adjusted - 1) mod 7 = 6"
    hence "(toDays (plusDays adjusted 1) - 1) mod 7 = 0"
      unfolding t mod7_succ by simp
    hence "isBusinessDay (plusDays adjusted 1) s"
      using v' by (simp add: isBusinessDay_def isWeekend_def weekday_def)
    with a 2 show ?thesis by simp
  qed
qed

declare walkForward.simps [simp del]

function walkBackward :: "bool option \<Rightarrow> date \<Rightarrow> date" where
  "walkBackward s adjusted =
     (if \<not> isBusinessDay adjusted s then walkBackward s (plusDays adjusted (- 1)) else adjusted)"
  by pat_completeness simp_all
termination
proof (relation "measure (\<lambda>(s, d). if isBusinessDay d s then 0
          else if (toDays d - 1) mod 7 = 6 then 2 else 1)", goal_cases)
  case 1
  show ?case by simp
next
  case (2 s adjusted)
  from not_business_cases[OF 2] have v: "isValid adjusted"
    and c: "(toDays adjusted - 1) mod 7 = 5 \<or> (toDays adjusted - 1) mod 7 = 6" by simp_all
  have t: "toDays adjusted - 1 = (toDays (plusDays adjusted (- 1)) - 1) + 1"
    using v by (simp add: toDays_plusDays)
  have v': "isValid (plusDays adjusted (- 1))" using v by (rule isValid_plusDays)
  let ?p = "(toDays (plusDays adjusted (- 1)) - 1) mod 7"
  have step: "(toDays adjusted - 1) mod 7 = (if ?p = 6 then 0 else ?p + 1)"
    by (subst t) (rule mod7_succ)
  from c show ?case
  proof
    assume a: "(toDays adjusted - 1) mod 7 = 6"
    with step have "?p = 5" by (simp split: if_splits)
    with a 2 show ?thesis by simp
  next
    assume a: "(toDays adjusted - 1) mod 7 = 5"
    with step have "?p = 4" by (simp split: if_splits)
    hence "isBusinessDay (plusDays adjusted (- 1)) s"
      using v' by (simp add: isBusinessDay_def isWeekend_def weekday_def)
    with a 2 show ?thesis by simp
  qed
qed

declare walkBackward.simps [simp del]

text \<open>
  \<open>adjustDate\<close> returns \<open>toISODate()\<close> of the adjusted date.  For an invalid date that is
  \<open>null\<close>; the model returns the date as it is, and the pipeline only passes valid dates.
\<close>

definition adjustDate :: "date \<Rightarrow> adjustment \<Rightarrow> bool option \<Rightarrow> date" where
  "adjustDate dt adj s =
     (if adj = AdjNone \<or> isBusinessDay dt s then dt
      else if adj = NextBusinessDay then walkForward s dt
      else if adj = PrevBusinessDay then walkBackward s dt
      else dt)"

definition adjustTransaction :: "transaction \<Rightarrow> settings \<Rightarrow> transaction" where
  "adjustTransaction t st =
     (let adj = (case tx_adjustment t of None \<Rightarrow> AdjNone | Some a \<Rightarrow> a);
          adjustedDate = adjustDate (tx_date t) adj (weekendsAreNonBusinessDays st)
      in t\<lparr> tx_originalDate := Some (tx_date t), tx_date := adjustedDate,
              tx_wasAdjusted := Some (adjustedDate \<noteq> tx_date t) \<rparr>)"

section \<open>Ledger module\<close>

subsection \<open>Transaction generation\<close>

definition enabledRules :: "model \<Rightarrow> rule list" where
  "enabledRules m = filter (\<lambda>r. enabled r \<noteq> Some False) (rules m)"

text \<open>The loop over the rules; it has no result when one expansion has none.\<close>

fun expandAll :: "rule list \<Rightarrow> date \<Rightarrow> date \<Rightarrow> model \<Rightarrow> transaction list option" where
  "expandAll [] startDate endDate m = Some []"
| "expandAll (r # rs) startDate endDate m =
     (case expandRule r startDate endDate (Some m) of
        None \<Rightarrow> None
      | Some occurrences \<Rightarrow>
          (case expandAll rs startDate endDate m of
             None \<Rightarrow> None
           | Some rest \<Rightarrow> Some (occurrences @ rest)))"

definition oneOffTransaction :: "oneOff \<Rightarrow> transaction" where
  "oneOffTransaction x =
     \<lparr> tx_date = oo_date x, tx_ruleId = None, tx_oneOffId = Some (oo_id x),
       tx_name = oo_name x, tx_accountId = oo_accountId x,
       tx_kind = (if oo_amount x \<ge> 0 then Income else Expense), tx_amount = oo_amount x,
       tx_category = (if oo_category x = [] then ''one-off'' else oo_category x),
       tx_tags = oo_tags x, tx_priority = 50, tx_adjustment = None, tx_toAccountId = None,
       tx_originalDate = None, tx_wasAdjusted = None, tx_isOneOff = True \<rparr>"

text \<open>\<open>kindOrder[kind] || 0\<close>.\<close>

definition kindOrder :: "kind \<Rightarrow> int" where
  "kindOrder k = (case k of Income \<Rightarrow> 0 | Transfer \<Rightarrow> 1 | Expense \<Rightarrow> 2 | _ \<Rightarrow> 0)"

definition compareTransactions :: "transaction \<Rightarrow> transaction \<Rightarrow> int" where
  "compareTransactions a b =
     (if tx_date a \<noteq> tx_date b then localeCompare (tx_date a) (tx_date b)
      else if tx_priority a \<noteq> tx_priority b then tx_priority a - tx_priority b
      else kindOrder (tx_kind a) - kindOrder (tx_kind b))"

text \<open>Steps 1 to 3 of \<open>generateTransactions\<close>: the transactions in the order they are emitted.\<close>

definition collectTransactions :: "model \<Rightarrow> date \<Rightarrow> date \<Rightarrow> transaction list option" where
  "collectTransactions m startDate endDate =
     (case expandAll (enabledRules m) startDate endDate m of
        None \<Rightarrow> None
      | Some transactions \<Rightarrow>
          (let adjustedTransactions = map (\<lambda>t. adjustTransaction t (model_settings m)) transactions;
               oneOffTxs = map oneOffTransaction
                 (filter (\<lambda>x. str_le startDate (oo_date x) \<and> str_le (oo_date x) endDate)
                    (oneOffs m))
           in Some (adjustedTransactions @ oneOffTxs)))"

definition generateTransactions :: "model \<Rightarrow> date \<Rightarrow> date \<Rightarrow> transaction list option" where
  "generateTransactions m startDate endDate =
     (case collectTransactions m startDate endDate of
        None \<Rightarrow> None
      | Some adjustedTransactions \<Rightarrow> Some (js_sort compareTransactions adjustedTransactions))"

text \<open>The order the claim words: date, then priority, then rank of the kind.\<close>

definition tupleKey :: "transaction \<Rightarrow> date \<times> int \<times> int" where
  "tupleKey t = (tx_date t, tx_priority t, kindOrder (tx_kind t))"

definition tupleLe :: "transaction \<Rightarrow> transaction \<Rightarrow> bool" where
  "tupleLe a b =
     (str_lt (tx_date a) (tx_date b) \<or>
      (tx_date a = tx_date b \<and>
        (tx_priority a < tx_priority b \<or>
         (tx_priority a = tx_priority b \<and> kindOrder (tx_kind a) \<le> kindOrder (tx_kind b)))))"

lemma str_lt_total: "a \<noteq> b \<Longrightarrow> \<not> str_lt a b \<Longrightarrow> str_lt b (a::date)"
  by (cases a, cases b) (auto simp: str_lt_def)

lemma str_lt_irrefl: "\<not> str_lt a a"
  by (simp add: str_lt_def)

lemma str_lt_trans: "str_lt a b \<Longrightarrow> str_lt b c \<Longrightarrow> str_lt a c"
  by (auto simp: str_lt_def)

lemma compare_le_iff: "compareTransactions a b \<le> 0 \<longleftrightarrow> tupleLe a b"
  using str_lt_irrefl[of "tx_date b"]
  by (auto simp: compareTransactions_def tupleLe_def localeCompare_def)

lemma tupleLe_total: "tupleLe a b \<or> tupleLe b a"
  using str_lt_total[of "tx_date a" "tx_date b"]
  by (auto simp: tupleLe_def)

lemma tupleLe_trans: "tupleLe a b \<Longrightarrow> tupleLe b c \<Longrightarrow> tupleLe a c"
  using str_lt_trans[of "tx_date a" "tx_date b" "tx_date c"]
  by (auto simp: tupleLe_def)

lemma tupleKey_eq_le: "tupleKey a = tupleKey b \<Longrightarrow> tupleLe a b"
  by (simp add: tupleKey_def tupleLe_def)

lemma generateTransactions_sorted:
  assumes "generateTransactions m startDate endDate = Some txs"
  shows "sorted_wrt tupleLe txs"
proof -
  from assms obtain raw where "txs = js_sort compareTransactions raw"
    by (auto simp: generateTransactions_def split: option.splits)
  moreover have "sorted_wrt (\<lambda>a b. compareTransactions a b \<le> 0) (js_sort compareTransactions raw)"
    by (rule sorted_js_sort) (use tupleLe_total tupleLe_trans in \<open>auto simp: compare_le_iff\<close>)
  ultimately show ?thesis by (simp add: compare_le_iff)
qed

lemma generateTransactions_stable:
  assumes "collectTransactions m startDate endDate = Some raw"
  shows "generateTransactions m startDate endDate = Some (js_sort compareTransactions raw)"
    and "filter (\<lambda>t. tupleKey t = k) (js_sort compareTransactions raw)
           = filter (\<lambda>t. tupleKey t = k) raw"
proof -
  show "generateTransactions m startDate endDate = Some (js_sort compareTransactions raw)"
    using assms by (simp add: generateTransactions_def)
  show "filter (\<lambda>t. tupleKey t = k) (js_sort compareTransactions raw)
           = filter (\<lambda>t. tupleKey t = k) raw"
    by (rule filter_js_sort) (simp add: compare_le_iff tupleKey_eq_le)
qed

lemma expandRule_not_truthy: "\<not> truthy (enabled r) \<Longrightarrow> expandRule r s e m = Some []"
  by (simp add: expandRule_def)

lemma expandAll_truthy:
  "expandAll (filter (\<lambda>r. enabled r \<noteq> Some False) rs) s e m
     = expandAll (filter (\<lambda>r. truthy (enabled r)) rs) s e m"
proof (induction rs)
  case Nil
  show ?case by simp
next
  case (Cons r rs)
  show ?case
  proof (cases "truthy (enabled r)")
    case True
    hence "enabled r \<noteq> Some False" by (simp add: truthy_def)
    with True Cons show ?thesis by (simp split: option.splits)
  next
    case False
    show ?thesis
    proof (cases "enabled r = Some False")
      case True
      with False Cons show ?thesis by simp
    next
      case notFalse: False
      have "expandAll (r # filter (\<lambda>r. enabled r \<noteq> Some False) rs) s e m
              = expandAll (filter (\<lambda>r. enabled r \<noteq> Some False) rs) s e m"
        using expandRule_not_truthy[OF False, of s e "Some m"]
        by (simp split: option.splits)
      with False notFalse Cons show ?thesis by simp
    qed
  qed
qed

subsection \<open>Running the ledger\<close>


























subsection \<open>Models for concrete runs\<close>

definition mkRule ::
  "string \<Rightarrow> kind \<Rightarrow> rat \<Rightarrow> string \<Rightarrow> string option \<Rightarrow> bool option \<Rightarrow> recurrence \<Rightarrow> rule" where
  "mkRule i k amt acc toAcc en rc =
     \<lparr> rule_id = i, rule_name = i, rule_accountId = acc, rule_kind = k, rule_amount = amt,
       rule_category = [], rule_tags = [], enabled = en, rule_priority = Some 100,
       rule_adjustment = Some AdjNone, validFrom = None, validTo = None,
       rule_recurrence = Some rc, followsRuleId = None, rule_toAccountId = toAcc \<rparr>"

definition mkModel :: "account list \<Rightarrow> rule list \<Rightarrow> oneOff list \<Rightarrow> model" where
  "mkModel accs rs os =
     \<lparr> accounts = accs, startingBalances = [], rules = rs, oneOffs = os,
       model_settings = \<lparr> forecastHorizonDays = None, weekendsAreNonBusinessDays = None \<rparr> \<rparr>"

definition mkAccount :: "string \<Rightarrow> string \<Rightarrow> account" where
  "mkAccount i ty = \<lparr> acc_id = i, acc_name = i, acc_type = ty \<rparr>"


text \<open>
  A checking account with a rent, a transfer to savings, a salary and a phone bill, all on
  the 1st and with the same priority.
\<close>

definition householdModel :: model where
  "householdModel = mkModel [mkAccount ''checking'' ''checking'', mkAccount ''savings'' ''savings'']
     [mkRule ''rent'' Expense 400 ''checking'' None (Some True) (MonthlyDay (Some 1)),
      mkRule ''save'' Transfer 100 ''checking'' (Some ''savings'') (Some True) (MonthlyDay (Some 1)),
      mkRule ''pay'' Income 1000 ''checking'' None (Some True) (MonthlyDay (Some 1)),
      mkRule ''phone'' Expense 50 ''checking'' None (Some True) (MonthlyDay (Some 1))]
     []"

text \<open>A rule without the \<open>enabled\<close> flag, alone in a model.\<close>

definition gymRule :: rule where
  "gymRule = mkRule ''gym'' Expense 30 ''checking'' None None (MonthlyDay (Some 1))"

definition gymModel :: model where
  "gymModel = mkModel [mkAccount ''checking'' ''checking''] [gymRule] []"























section \<open>Debt module\<close>



















subsection \<open>Facts about the loop\<close>











subsection \<open>The example run\<close>






















































section \<open>Summary module: safe surplus\<close>









section \<open>Verified properties\<close>

subsection \<open>Safe surplus\<close>







subsection \<open>Recurrence expansion\<close>

text \<open>
  C4 (as amended).  For a \<open>biweekly_anchor\<close> recurrence with a valid anchor date and every
  window, every emitted date is \<open>anchorDate + 14k\<close> days for some integer \<open>k\<close>, and it lies in
  the window; \<open>k\<close> is not negative when the window starts less than 14 days before the
  anchor.  Expanding anchor 2024-01-01 over 2024-01-01 to 2024-02-28 yields exactly 2024-01-01,
  2024-01-15, 2024-01-29, 2024-02-12 and 2024-02-26.
\<close>

theorem C4_biweekly_anchor_aligned:
  assumes "isValid anchorDate"
    and "expandBiweeklyAnchor anchorDate start wEnd = Some ds"
    and "d \<in> set ds"
  shows "(\<exists>k. d = plusDays anchorDate (14 * k) \<and> toDays d = toDays anchorDate + 14 * k
              \<and> dt_le start d \<and> dt_le d wEnd
              \<and> (toDays anchorDate - 14 < toDays start \<longrightarrow> 0 \<le> k))
       \<and> expandBiweeklyAnchor (mkDate 2024 1 1) (mkDate 2024 1 1) (mkDate 2024 2 28)
           = Some [mkDate 2024 1 1, mkDate 2024 1 15, mkDate 2024 1 29, mkDate 2024 2 12,
                   mkDate 2024 2 26]"
proof -
  from expandBiweeklyAnchor_aligned[OF assms] obtain k where
      k: "d = plusDays anchorDate (14 * k)" "toDays d = toDays anchorDate + 14 * k"
         "dt_le start d" "dt_le d wEnd"
    by blast
  have "toDays anchorDate - 14 < toDays start \<longrightarrow> 0 \<le> k"
    using k(2,3) by (simp add: dt_le_def)
  with k have general: "\<exists>k. d = plusDays anchorDate (14 * k)
      \<and> toDays d = toDays anchorDate + 14 * k \<and> dt_le start d \<and> dt_le d wEnd
      \<and> (toDays anchorDate - 14 < toDays start \<longrightarrow> 0 \<le> k)"
    by blast
  have example: "expandBiweeklyAnchor (mkDate 2024 1 1) (mkDate 2024 1 1) (mkDate 2024 2 28)
           = Some [mkDate 2024 1 1, mkDate 2024 1 15, mkDate 2024 1 29, mkDate 2024 2 12,
                   mkDate 2024 2 26]"
    by code_simp
  from general example show ?thesis by blast
qed

text \<open>The theorem at the example of the claim, for the third emitted date.\<close>

theorem C4_biweekly_anchor_aligned_witness:
  "isValid (mkDate 2024 1 1)
   \<and> expandBiweeklyAnchor (mkDate 2024 1 1) (mkDate 2024 1 1) (mkDate 2024 2 28)
       = Some [mkDate 2024 1 1, mkDate 2024 1 15, mkDate 2024 1 29, mkDate 2024 2 12,
               mkDate 2024 2 26]
   \<and> mkDate 2024 1 29 \<in> set [mkDate 2024 1 1, mkDate 2024 1 15, mkDate 2024 1 29,
               mkDate 2024 2 12, mkDate 2024 2 26]
   \<and> toDays (mkDate 2024 1 1) - 14 < toDays (mkDate 2024 1 1)
   \<and> (\<exists>k\<ge>0. mkDate 2024 1 29 = plusDays (mkDate 2024 1 1) (14 * k))"
proof -
  have h1: "isValid (mkDate 2024 1 1)" by code_simp
  have h2: "expandBiweeklyAnchor (mkDate 2024 1 1) (mkDate 2024 1 1) (mkDate 2024 2 28)
       = Some [mkDate 2024 1 1, mkDate 2024 1 15, mkDate 2024 1 29, mkDate 2024 2 12,
               mkDate 2024 2 26]"
    by code_simp
  have h3: "mkDate 2024 1 29 \<in> set [mkDate 2024 1 1, mkDate 2024 1 15, mkDate 2024 1 29,
               mkDate 2024 2 12, mkDate 2024 2 26]"
    by simp
  have h4: "toDays (mkDate 2024 1 1) - 14 < toDays (mkDate 2024 1 1)" by simp
  from C4_biweekly_anchor_aligned[OF h1 h2 h3] h4
  have "\<exists>k\<ge>0. mkDate 2024 1 29 = plusDays (mkDate 2024 1 1) (14 * k)" by blast
  with h1 h2 h3 h4 show ?thesis by blast
qed

text \<open>
  C4 as stated fails: with anchor 2024-01-15 and a window starting on 2024-01-01 the
  expansion emits 2024-01-01, which is 14 days before the anchor (\<open>k = -1\<close>).
\<close>

theorem C4_before_anchor_counterexample:
  "isValid (mkDate 2024 1 15)
   \<and> expandBiweeklyAnchor (mkDate 2024 1 15) (mkDate 2024 1 1) (mkDate 2024 2 28)
       = Some [mkDate 2024 1 1, mkDate 2024 1 15, mkDate 2024 1 29, mkDate 2024 2 12,
               mkDate 2024 2 26]
   \<and> toDays (mkDate 2024 1 1) = toDays (mkDate 2024 1 15) + 14 * (- 1)"
  by code_simp

text \<open>
  C5 (as amended).  For a \<open>monthly_day\<close> recurrence whose day is at least 1 (an absent or
  zero day counts as 1), the emitted dates are exactly the valid dates on day
  \<open>min(day, daysInMonth)\<close> of their month that lie in the window, each emitted once: a month
  contributes its date on that day when the date is inside the window and nothing
  otherwise, and no date rolls into the next month.  Day 31 yields the last day of February:
  2024-02-29 and 2023-02-28.
\<close>

theorem C5_monthly_day_clamped:
  assumes "1 \<le> int_or dayField 1"
  shows "(\<forall>d. d \<in> set (expandMonthlyDay dayField start wEnd) \<longleftrightarrow>
            (isValid d \<and> day d = min (int_or dayField 1) (daysInMonth (year d) (month d))
             \<and> dt_le start d \<and> dt_le d wEnd))
       \<and> distinct (expandMonthlyDay dayField start wEnd)
       \<and> expandMonthlyDay (Some 31) (mkDate 2024 1 15) (mkDate 2024 4 30)
           = [mkDate 2024 1 31, mkDate 2024 2 29, mkDate 2024 3 31, mkDate 2024 4 30]
       \<and> expandMonthlyDay (Some 31) (mkDate 2023 2 1) (mkDate 2023 3 31)
           = [mkDate 2023 2 28, mkDate 2023 3 31]"
proof -
  from expandMonthlyDay_set[OF assms, of start wEnd]
  have general: "(\<forall>d. d \<in> set (expandMonthlyDay dayField start wEnd) \<longleftrightarrow>
            (isValid d \<and> day d = min (int_or dayField 1) (daysInMonth (year d) (month d))
             \<and> dt_le start d \<and> dt_le d wEnd))"
    and once: "distinct (expandMonthlyDay dayField start wEnd)"
    by (simp_all add: monthlyTarget_def)
  have ex1: "expandMonthlyDay (Some 31) (mkDate 2024 1 15) (mkDate 2024 4 30)
           = [mkDate 2024 1 31, mkDate 2024 2 29, mkDate 2024 3 31, mkDate 2024 4 30]"
    by code_simp
  have ex2: "expandMonthlyDay (Some 31) (mkDate 2023 2 1) (mkDate 2023 3 31)
           = [mkDate 2023 2 28, mkDate 2023 3 31]"
    by code_simp
  from general once ex1 ex2 show ?thesis by blast
qed

text \<open>The theorem for day 31 over a window containing February 2024.\<close>

theorem C5_monthly_day_clamped_witness:
  "1 \<le> int_or (Some 31) 1
   \<and> mkDate 2024 2 29 \<in> set (expandMonthlyDay (Some 31) (mkDate 2024 1 15) (mkDate 2024 4 30))
   \<and> mkDate 2024 3 1 \<notin> set (expandMonthlyDay (Some 31) (mkDate 2024 1 15) (mkDate 2024 4 30))"
proof -
  have h: "1 \<le> int_or (Some 31) 1" by (simp add: int_or_def)
  have a: "isValid (mkDate 2024 2 29) \<and> day (mkDate 2024 2 29)
             = min (int_or (Some 31) 1) (daysInMonth (year (mkDate 2024 2 29)) (month (mkDate 2024 2 29)))
          \<and> dt_le (mkDate 2024 1 15) (mkDate 2024 2 29) \<and> dt_le (mkDate 2024 2 29) (mkDate 2024 4 30)"
    by code_simp
  have b: "day (mkDate 2024 3 1)
             \<noteq> min (int_or (Some 31) 1) (daysInMonth (year (mkDate 2024 3 1)) (month (mkDate 2024 3 1)))"
    by code_simp
  from C5_monthly_day_clamped[OF h, of "mkDate 2024 1 15" "mkDate 2024 4 30"] a b h
  show ?thesis by blast
qed

text \<open>
  C5 as stated fails: January and February 2024 both overlap the window from 2024-01-20 to
  2024-02-10, and day 15 of neither lies inside it, so nothing is emitted.
\<close>

theorem C5_partial_month_counterexample:
  "dt_le (mkDate 2024 1 20) (mkDate 2024 2 10)
   \<and> expandMonthlyDay (Some 15) (mkDate 2024 1 20) (mkDate 2024 2 10) = []"
  by code_simp

text \<open>
  C10.  A rule whose \<open>enabled\<close> flag is absent or otherwise falsy expands to the empty
  sequence, for every window and model.  A rule without the flag passes the filter of
  \<open>generateTransactions\<close> (\<open>enabled !== false\<close>), and yet the rule loop of the pipeline
  yields what it yields on the rules with a truthy flag alone.
\<close>

theorem C10_enabled_flag:
  assumes "\<not> truthy (enabled r)"
  shows "expandRule r startDate endDate m = Some []
       \<and> (enabled r = None \<longrightarrow> r \<in> set (rules md) \<longrightarrow> r \<in> set (enabledRules md))
       \<and> expandAll (enabledRules md) startDate endDate md
           = expandAll (filter (\<lambda>x. truthy (enabled x)) (rules md)) startDate endDate md"
  using assms
  by (simp add: expandRule_not_truthy enabledRules_def expandAll_truthy)

text \<open>The theorem for the gym rule, which has no flag: admitted by the filter, nothing emitted.\<close>

theorem C10_enabled_flag_witness:
  "\<not> truthy (enabled gymRule) \<and> enabled gymRule = None \<and> gymRule \<in> set (rules gymModel)
   \<and> gymRule \<in> set (enabledRules gymModel)
   \<and> expandRule gymRule (mkDate 2024 1 1) (mkDate 2024 12 31) (Some gymModel) = Some []
   \<and> generateTransactions gymModel (mkDate 2024 1 1) (mkDate 2024 12 31) = Some []"
proof -
  have h1: "\<not> truthy (enabled gymRule)" by (simp add: truthy_def gymRule_def mkRule_def)
  have h2: "enabled gymRule = None" by (simp add: gymRule_def mkRule_def)
  have h3: "gymRule \<in> set (rules gymModel)" by (simp add: gymModel_def mkModel_def)
  have h4: "generateTransactions gymModel (mkDate 2024 1 1) (mkDate 2024 12 31) = Some []"
    by code_simp
  from C10_enabled_flag[OF h1, of "mkDate 2024 1 1" "mkDate 2024 12 31" "Some gymModel" gymModel]
    h1 h2 h3 h4
  show ?thesis by blast
qed

subsection \<open>Transaction pipeline and ledger\<close>

text \<open>
  C6.  Whenever the rules expand (\<open>collectTransactions\<close> has a result, the transactions in
  emission order), \<open>generateTransactions\<close> returns them sorted by the tuple (date ascending,
  priority ascending, kind rank ascending with income before transfer before expense), and
  the transactions that agree on the whole tuple are in their emission order.
\<close>

theorem C6_sorted_stable:
  assumes "collectTransactions m startDate endDate = Some raw"
  shows "\<exists>txs. generateTransactions m startDate endDate = Some txs
           \<and> sorted_wrt tupleLe txs
           \<and> (\<forall>k. filter (\<lambda>t. tupleKey t = k) txs = filter (\<lambda>t. tupleKey t = k) raw)
           \<and> kindOrder Income < kindOrder Transfer \<and> kindOrder Transfer < kindOrder Expense"
proof -
  have g: "generateTransactions m startDate endDate = Some (js_sort compareTransactions raw)"
    using assms by (rule generateTransactions_stable)
  have "sorted_wrt tupleLe (js_sort compareTransactions raw)"
    using g by (rule generateTransactions_sorted)
  moreover have "\<forall>k. filter (\<lambda>t. tupleKey t = k) (js_sort compareTransactions raw)
                      = filter (\<lambda>t. tupleKey t = k) raw"
    using generateTransactions_stable(2)[OF assms] by blast
  moreover have "kindOrder Income < kindOrder Transfer \<and> kindOrder Transfer < kindOrder Expense"
    by (simp add: kindOrder_def)
  ultimately show ?thesis using g by blast
qed

text \<open>
  The theorem on the household model: emitted as rent, save, pay, phone, and returned with
  the income first, the transfer next and the two expenses in their emission order.
\<close>

theorem C6_sorted_stable_witness:
  "map_option (map tx_name)
      (collectTransactions householdModel (mkDate 2024 1 1) (mkDate 2024 1 31))
     = Some [''rent'', ''save'', ''pay'', ''phone'']
   \<and> map_option (map tx_name)
      (generateTransactions householdModel (mkDate 2024 1 1) (mkDate 2024 1 31))
     = Some [''pay'', ''save'', ''rent'', ''phone'']
   \<and> (\<exists>txs. generateTransactions householdModel (mkDate 2024 1 1) (mkDate 2024 1 31) = Some txs
          \<and> sorted_wrt tupleLe txs)"
proof -
  have h1: "map_option (map tx_name)
      (collectTransactions householdModel (mkDate 2024 1 1) (mkDate 2024 1 31))
     = Some [''rent'', ''save'', ''pay'', ''phone'']"
    by code_simp
  have h2: "map_option (map tx_name)
      (generateTransactions householdModel (mkDate 2024 1 1) (mkDate 2024 1 31))
     = Some [''pay'', ''save'', ''rent'', ''phone'']"
    by code_simp
  from h1 obtain raw where
      raw: "collectTransactions householdModel (mkDate 2024 1 1) (mkDate 2024 1 31) = Some raw"
    by blast
  from C6_sorted_stable[OF raw] h1 h2 show ?thesis by blast
qed




subsection \<open>Debt projection\<close>



end
